theory Spec2Isabelle
  imports Main "HOL-Library.Word" "HOL-Library.Multiset"
begin

section \<open>Vault watching in viper: a shallow embedding of vault.go\<close>

text \<open>
  The development follows \<^verbatim>\<open>vault.go\<close> function by function. What the Go code gets from
  outside (the Vault HTTP client, the clock, the order in which \<^verbatim>\<open>range\<close> visits a
  map) is a parameter of the model, so every theorem holds for every backend answer, every
  clock reading and every iteration order.

  \<^item> Go's \<^verbatim>\<open>int\<close> and \<^verbatim>\<open>int64\<close> are 64-bit words (a 64-bit platform); \<^verbatim>\<open>time.Duration\<close>
    is an \<^verbatim>\<open>int64\<close> count of nanoseconds, so \<^verbatim>\<open>time.Duration(n) * time.Second\<close> wraps.
  \<^item> A \<^verbatim>\<open>time.Time\<close> is an instant: an integer count of nanoseconds since the Unix epoch.
  \<^item> An error return is \<open>Inl (Error msg)\<close>, a run-time panic is \<open>Inl (Panic msg)\<close>.
  \<^item> A Go map is a partial function; where the code ranges over a map, the order of the
    visit is given from outside.
  \<^item> The watch loop's cache writes, channel operations, log calls, sleeps and fetches are
    recorded as a list of effects. A send on the \<^verbatim>\<open>AlertChannel\<close> blocks until the
    subscriber takes the value; the model is of the runs in which it does, after a delay
    that the outside world decides.
\<close>

subsection \<open>Values, errors and time\<close>

type_synonym go_int = "64 word"
type_synonym Duration = "64 word"
type_synonym Time = int

datatype fault = Error string | Panic string

text \<open>A value of Go's interface type \<^verbatim>\<open>any\<close>, as far as the type assertions of the code tell
  them apart: a string, a \<^verbatim>\<open>json.Number\<close> (a string type), a \<^verbatim>\<open>map[string]any\<close>, or something
  else. A missing map entry reads as the nil interface, which fails every assertion.\<close>

datatype any = AString string | ANumber string | AMap "(string \<times> any) list" | AOther

definition Second :: Duration where
  "Second = 1000000000"

text \<open>\<^verbatim>\<open>t.Add(d)\<close> and \<^verbatim>\<open>t.Unix()\<close> (whole seconds since the epoch, rounded down).\<close>

definition Add :: "Time \<Rightarrow> Duration \<Rightarrow> Time" where
  "Add t d = t + sint d"

definition Unix :: "Time \<Rightarrow> int" where
  "Unix t = t div 1000000000"

subsection \<open>The functions of package strings that the code calls\<close>

definition HasPrefix :: "string \<Rightarrow> string \<Rightarrow> bool" where
  "HasPrefix s pre = (length pre \<le> length s \<and> take (length pre) s = pre)"

definition TrimPrefix :: "string \<Rightarrow> string \<Rightarrow> string" where
  "TrimPrefix s pre = (if HasPrefix s pre then drop (length pre) s else s)"

text \<open>\<^verbatim>\<open>strings.Split(s, sep)\<close> for a separator of one character (the code splits at
  \<^verbatim>\<open>":"\<close> and at \<^verbatim>\<open>"/"\<close>): one more piece than there are separators, never an empty slice.\<close>

fun Split :: "string \<Rightarrow> char \<Rightarrow> string list" where
  "Split [] sep = [[]]"
| "Split (x # xs) sep =
     (if x = sep then [] # Split xs sep
      else (case Split xs sep of [] \<Rightarrow> [[x]] | piece # pieces \<Rightarrow> (x # piece) # pieces))"

subsection \<open>Data of the package\<close>

record KVEntry =
  Key :: string
  Value :: string

text \<open>\<^verbatim>\<open>VaultWatchConfig\<close>. The \<^verbatim>\<open>AlertChannel\<close> is not a field of the model: what is sent
  on it, and its closing, appear as effects of the watch loop.\<close>

record VaultWatchConfig =
  VersionPeriod :: Duration

text \<open>\<^verbatim>\<open>vaultClient\<close>. \<^verbatim>\<open>leases\<close> and \<^verbatim>\<open>versions\<close> are \<open>None\<close> while the Go map is nil
  (reading a nil map gives the zero value, assigning to it panics). \<^verbatim>\<open>vaults\<close> is only
  assigned after \<^verbatim>\<open>make\<close>, so a nil \<^verbatim>\<open>vaults\<close> is the empty map.\<close>

record vaultClient =
  vaults :: "string \<rightharpoonup> string"
  leases :: "(string \<rightharpoonup> go_int) option"
  versions :: "(string \<rightharpoonup> go_int) option"
  watchConfig :: "VaultWatchConfig option"

text \<open>What the Vault client library answers.\<close>

record KvV2ReadResponse =
  Data :: "string \<rightharpoonup> any"
  Metadata :: "string \<rightharpoonup> any"

record DatabaseGenerateCredentialsResponse =
  CredData :: "string \<rightharpoonup> any"
  LeaseDuration :: go_int

text \<open>The outside world as one call of the code, or one pass of the watch loop, sees it: the
  answers of the Vault client (\<open>Inl msg\<close> is a returned error), \<^verbatim>\<open>json.Number.Int64\<close>, the
  order in which \<^verbatim>\<open>range c.vaults\<close> yields the mount names, and the time, in nanoseconds,
  for which a send on the \<^verbatim>\<open>AlertChannel\<close> blocks until the subscriber takes the event.\<close>

record env =
  mountOrder :: "string list"
  InternalUiListEnabledVisibleMounts :: "string + (string \<times> any) list"
  KvV2Read :: "string \<Rightarrow> string \<Rightarrow> string + KvV2ReadResponse"
  DatabaseGenerateCredentials :: "string \<Rightarrow> string \<Rightarrow> string + DatabaseGenerateCredentialsResponse"
  Int64 :: "string \<Rightarrow> string + go_int"
  subscriberDelay :: nat

definition isVersionable :: "string \<Rightarrow> bool" where
  "isVersionable vtype = (vtype = ''kv'')"

definition isLeasable :: "string \<Rightarrow> bool" where
  "isLeasable vtype = (vtype = ''database'')"

subsection \<open>ConfigureVault\<close>

text \<open>The loop over \<^verbatim>\<open>vaults.Data.Secret\<close>: the system mounts are skipped, every other
  entry must be a map with a string under \<^verbatim>\<open>"type"\<close>, or the type assertion panics.\<close>

fun ConfigureVault_loop :: "(string \<times> any) list \<Rightarrow> (string \<rightharpoonup> string) \<Rightarrow> fault + (string \<rightharpoonup> string)" where
  "ConfigureVault_loop [] vs = Inr vs"
| "ConfigureVault_loop ((vault, data) # rest) vs =
     (if HasPrefix vault ''sys/'' \<or> vault = ''cubbyhole/'' \<or> vault = ''identity/''
      then ConfigureVault_loop rest vs
      else (case data of
              AMap dataMap \<Rightarrow>
                (case map_of dataMap ''type'' of
                   Some (AString vtype) \<Rightarrow> ConfigureVault_loop rest (vs(vault \<mapsto> vtype))
                 | _ \<Rightarrow> Inl (Panic ''interface conversion: interface {} is not string''))
            | _ \<Rightarrow> Inl (Panic ''interface conversion: interface {} is not map[string]interface {}'')))"

definition ConfigureVault :: "env \<Rightarrow> vaultClient \<Rightarrow> fault + vaultClient" where
  "ConfigureVault e c =
     (case InternalUiListEnabledVisibleMounts e of
        Inl err \<Rightarrow> Inl (Error err)
      | Inr secret \<Rightarrow>
          (case ConfigureVault_loop secret Map.empty of
             Inl f \<Rightarrow> Inl f
           | Inr vs \<Rightarrow> Inr (c\<lparr>vaults := vs\<rparr>)))"

subsection \<open>Fetching: getKV2, getDBCreds, getVaultTypePath, get, Get\<close>

definition getKV2 :: "env \<Rightarrow> string \<Rightarrow> string \<Rightarrow> string \<Rightarrow> fault + string \<times> go_int" where
  "getKV2 e mountPath key secretName =
     (case KvV2Read e key mountPath of
        Inl err \<Rightarrow> Inl (Error err)
      | Inr resp \<Rightarrow>
          (case Data resp secretName of
             Some (AString secret) \<Rightarrow>
               (case Metadata resp ''version'' of
                  Some (ANumber n) \<Rightarrow>
                    (case Int64 e n of
                       Inl err \<Rightarrow> Inl (Error err)
                     | Inr version \<Rightarrow> Inr (secret, version))
                | _ \<Rightarrow> Inl (Panic ''interface conversion: interface {} is not json.Number''))
           | _ \<Rightarrow> Inl (Error (''Secret ( '' @ secretName @ '' ) does not exist.''))))"

definition getDBCreds :: "env \<Rightarrow> string \<Rightarrow> string \<Rightarrow> fault + string \<times> go_int" where
  "getDBCreds e mountPath role =
     (case DatabaseGenerateCredentials e role mountPath of
        Inl err \<Rightarrow> Inl (Error err)
      | Inr resp \<Rightarrow>
          (case CredData resp ''username'' of
             Some (AString username) \<Rightarrow>
               (case CredData resp ''password'' of
                  Some (AString password) \<Rightarrow>
                    Inr (username @ '':'' @ password, LeaseDuration resp)
                | _ \<Rightarrow> Inl (Panic ''interface conversion: interface {} is not string''))
           | _ \<Rightarrow> Inl (Panic ''interface conversion: interface {} is not string'')))"

text \<open>\<^verbatim>\<open>getVaultTypePath\<close> returns at the first mount name, in the order of this iteration,
  that is a prefix of the key. \<^verbatim>\<open>vault[:len(vault)-1]\<close> panics on an empty mount name.\<close>

fun getVaultTypePath_loop :: "(string \<rightharpoonup> string) \<Rightarrow> string \<Rightarrow> string list \<Rightarrow> fault + string \<times> string" where
  "getVaultTypePath_loop vs key [] =
     Inl (Error (''Secrets engine for key ( '' @ key @ '' ) does not exist.''))"
| "getVaultTypePath_loop vs key (vault # rest) =
     (case vs vault of
        None \<Rightarrow> getVaultTypePath_loop vs key rest
      | Some vtype \<Rightarrow>
          if HasPrefix key vault
          then (if vault = [] then Inl (Panic ''slice bounds out of range [:-1]'')
                else Inr (vtype, butlast vault))
          else getVaultTypePath_loop vs key rest)"

definition getVaultTypePath :: "env \<Rightarrow> vaultClient \<Rightarrow> string \<Rightarrow> fault + string \<times> string" where
  "getVaultTypePath e c key = getVaultTypePath_loop (vaults c) key (mountOrder e)"

text \<open>\<^verbatim>\<open>get\<close> returns the secret, its version or lease time, and the client with the
  version or lease recorded. \<^verbatim>\<open>keyWithName[1]\<close> is evaluated before \<^verbatim>\<open>getKV2\<close> is called.\<close>

definition get :: "env \<Rightarrow> vaultClient \<Rightarrow> string \<Rightarrow> fault + string \<times> go_int \<times> vaultClient" where
  "get e c key0 =
     (case getVaultTypePath e c key0 of
        Inl f \<Rightarrow> Inl f
      | Inr (vaultType, mountPath) \<Rightarrow>
          (let key = TrimPrefix key0 (mountPath @ ''/'') in
           if vaultType = ''kv'' then
             (case Split key CHR '':'' of
                k0 # k1 # _ \<Rightarrow>
                  (case getKV2 e mountPath k0 k1 of
                     Inl f \<Rightarrow> Inl f
                   | Inr (resp, version) \<Rightarrow>
                       (case watchConfig c of
                          None \<Rightarrow> Inr (resp, version, c)
                        | Some cfg \<Rightarrow>
                            if VersionPeriod cfg \<noteq> 0 then
                              (case versions c of
                                 None \<Rightarrow> Inl (Panic ''assignment to entry in nil map'')
                               | Some m \<Rightarrow>
                                   Inr (resp, version,
                                        c\<lparr>versions := Some (m(mountPath @ ''/'' @ key \<mapsto> version))\<rparr>))
                            else Inr (resp, version, c)))
              | _ \<Rightarrow> Inl (Panic ''index out of range [1] with length 1''))
           else if vaultType = ''database'' then
             (case getDBCreds e mountPath key of
                Inl f \<Rightarrow> Inl f
              | Inr (resp, leaseTime) \<Rightarrow>
                  (case watchConfig c of
                     None \<Rightarrow> Inr (resp, leaseTime, c)
                   | Some cfg \<Rightarrow>
                       (case leases c of
                          None \<Rightarrow> Inl (Panic ''assignment to entry in nil map'')
                        | Some m \<Rightarrow>
                            Inr (resp, leaseTime,
                                 c\<lparr>leases := Some (m(mountPath @ ''/'' @ key \<mapsto> leaseTime))\<rparr>))))
           else Inl (Error (''Vault type ( '' @ vaultType @ '' ) is not supported.''))))"

definition Get :: "env \<Rightarrow> vaultClient \<Rightarrow> string \<Rightarrow> fault + string \<times> vaultClient" where
  "Get e c key =
     (case get e c key of
        Inl f \<Rightarrow> Inl f
      | Inr (bts, _, c') \<Rightarrow> Inr (bts, c'))"

subsection \<open>The due-time queue: watchableHeap under container/heap\<close>

record Watchable =
  path :: string
  nextGet :: Time

type_synonym watchableHeap = "Watchable list"

text \<open>The methods of \<^verbatim>\<open>watchableHeap\<close>. \<^verbatim>\<open>Less\<close> compares the due times in whole seconds.\<close>

definition Len :: "watchableHeap \<Rightarrow> nat" where
  "Len h = length h"

definition Less :: "watchableHeap \<Rightarrow> nat \<Rightarrow> nat \<Rightarrow> bool" where
  "Less h i j = (Unix (nextGet (h ! i)) < Unix (nextGet (h ! j)))"

definition Swap :: "watchableHeap \<Rightarrow> nat \<Rightarrow> nat \<Rightarrow> watchableHeap" where
  "Swap h i j = h[i := h ! j, j := h ! i]"

definition Push :: "watchableHeap \<Rightarrow> Watchable \<Rightarrow> watchableHeap" where
  "Push h val = h @ [val]"

definition Pop :: "watchableHeap \<Rightarrow> Watchable \<times> watchableHeap" where
  "Pop h = (h ! (length h - 1), take (length h - 1) h)"

text \<open>
  \<^verbatim>\<open>up\<close>, \<^verbatim>\<open>down\<close>, \<^verbatim>\<open>heap.Push\<close> and \<^verbatim>\<open>heap.Pop\<close> of Go's standard package
  \<^verbatim>\<open>container/heap\<close>, which the watch loop calls on the \<^verbatim>\<open>watchableHeap\<close>. Indices are
  natural numbers: in \<^verbatim>\<open>up\<close>, Go's \<^verbatim>\<open>(j - 1) / 2\<close> is \<open>0\<close> at \<open>j = 0\<close> (division truncates
  towards zero), and so is \<open>(0 - 1) div 2\<close> on \<open>nat\<close>. The test \<^verbatim>\<open>j1 < 0\<close> of \<^verbatim>\<open>down\<close>
  guards against an overflow that no slice length can reach. \<^verbatim>\<open>down\<close> also returns
  whether it moved the element, which \<^verbatim>\<open>heap.Pop\<close> ignores.
\<close>

function up :: "watchableHeap \<Rightarrow> nat \<Rightarrow> watchableHeap" where
  "up h j =
     (let i = (j - 1) div 2 in
      if i = j \<or> \<not> Less h j i then h
      else up (Swap h i j) i)"
  by pat_completeness auto
termination
  by (relation "measure (\<lambda>(h, j). j)") auto

function down :: "watchableHeap \<Rightarrow> nat \<Rightarrow> nat \<Rightarrow> watchableHeap" where
  "down h i n =
     (let j1 = 2 * i + 1 in
      if j1 \<ge> n then h
      else (let j = (if j1 + 1 < n \<and> Less h (j1 + 1) j1 then j1 + 1 else j1) in
            if \<not> Less h j i then h
            else down (Swap h i j) j n))"
  by pat_completeness auto
termination
  by (relation "measure (\<lambda>(h, i, n). n - i)") auto

declare up.simps [simp del] down.simps [simp del]

definition heap_Push :: "watchableHeap \<Rightarrow> Watchable \<Rightarrow> watchableHeap" where
  "heap_Push h x = (let h1 = Push h x in up h1 (Len h1 - 1))"

text \<open>\<^verbatim>\<open>heap.Pop\<close> on an empty heap indexes the slice at \<open>-1\<close> and panics.\<close>

definition heap_Pop :: "watchableHeap \<Rightarrow> fault + Watchable \<times> watchableHeap" where
  "heap_Pop h =
     (if Len h = 0 then Inl (Panic ''index out of range [-1]'')
      else (let n = Len h - 1;
                h1 = Swap h 0 n;
                h2 = down h1 0 n
            in Inr (Pop h2)))"

text \<open>A sequence of queue operations, run from a given queue.\<close>

datatype heap_op = OpPush Watchable | OpPop

fun heap_ops :: "heap_op list \<Rightarrow> watchableHeap \<Rightarrow> fault + watchableHeap" where
  "heap_ops [] h = Inr h"
| "heap_ops (OpPush x # ops) h = heap_ops ops (heap_Push h x)"
| "heap_ops (OpPop # ops) h =
     (case heap_Pop h of Inl f \<Rightarrow> Inl f | Inr (_, h') \<Rightarrow> heap_ops ops h')"

subsection \<open>The watch loop\<close>

text \<open>What the loop does to the outside: \<open>Fetch p\<close> is a call \<^verbatim>\<open>c.get(p)\<close>, \<open>CacheWrite p v\<close>
  the assignment \<^verbatim>\<open>v.secretstore[p] = v\<close>, \<open>Emit\<close> a send on the \<^verbatim>\<open>AlertChannel\<close> (taken by
  the subscriber), \<open>CloseChannel\<close> its closing, \<open>LogError\<close> a call of the logger with its
  arguments, \<open>SleepUntil t\<close> is \<^verbatim>\<open>time.Sleep(time.Until(t))\<close> and \<open>SleepFor d\<close> is
  \<^verbatim>\<open>time.Sleep(d)\<close>.\<close>

datatype effect =
    Fetch string
  | CacheWrite string string
  | Emit KVEntry
  | CloseChannel
  | LogError "string list"
  | SleepUntil Time
  | SleepFor Duration

text \<open>The goroutine of \<^verbatim>\<open>watchVault\<close> is running, has returned, or has panicked.\<close>

datatype loop_status = Running | Terminated | Panicked

record loop_state =
  client :: vaultClient
  queue :: watchableHeap
  secretstore :: "string \<rightharpoonup> string"
  status :: loop_status

text \<open>\<^verbatim>\<open>c.vaults[strings.Split(event.path, "/")[0]+"/"]\<close>: a missing mount reads as \<^verbatim>\<open>""\<close>.\<close>

definition eventVaultType :: "vaultClient \<Rightarrow> string \<Rightarrow> string" where
  "eventVaultType c p =
     (case vaults c (hd (Split p CHR ''/'') @ ''/'') of None \<Rightarrow> [] | Some vtype \<Rightarrow> vtype)"

text \<open>\<^verbatim>\<open>c.versions[event.path]\<close>: a missing entry, or a nil map, reads as \<open>0\<close>.\<close>

definition oldVersion :: "vaultClient \<Rightarrow> string \<Rightarrow> go_int" where
  "oldVersion c p =
     (case versions c of
        None \<Rightarrow> 0
      | Some m \<Rightarrow> (case m p of None \<Rightarrow> 0 | Some v \<Rightarrow> v))"

text \<open>One pass through the body of the \<^verbatim>\<open>for\<close> loop. \<open>e\<close> is the outside world during
  the pass and \<open>fetched\<close> the instant at which \<^verbatim>\<open>c.get\<close> returns: the fetch-completion
  time. Only the blocking operations take time: the path is pushed back with the reading of
  \<^verbatim>\<open>time.Now()\<close> made after the \<^verbatim>\<open>if\<close> block, which is \<open>fetched\<close> when nothing was sent,
  and \<open>fetched\<close> plus the time the send blocked when an event was sent on the
  \<^verbatim>\<open>AlertChannel\<close>. Once the goroutine has returned or panicked, nothing happens.\<close>

definition iteration :: "env \<Rightarrow> Time \<Rightarrow> loop_state \<Rightarrow> effect list \<times> loop_state" where
  "iteration e fetched st =
     (if status st \<noteq> Running then ([], st)
      else if Len (queue st) = 0 then ([SleepFor (1 * Second)], st)
      else
        (case heap_Pop (queue st) of
           Inl f \<Rightarrow> ([], st\<lparr>status := Panicked\<rparr>)
         | Inr (event, h') \<Rightarrow>
             (let c = client st;
                  vtype = eventVaultType c (path event);
                  slept = SleepUntil (nextGet event)
              in
              case watchConfig c of
                None \<Rightarrow> ([slept], st\<lparr>queue := h', status := Panicked\<rparr>)
              | Some cfg \<Rightarrow>
                  if VersionPeriod cfg \<noteq> 0 \<and> isVersionable vtype then
                    (let old = oldVersion c (path event) in
                     case get e c (path event) of
                       Inl (Error err) \<Rightarrow>
                         ([slept, Fetch (path event),
                           LogError [''Error watching versionable vault secret on path'', path event, err]],
                          st\<lparr>queue := h', status := Terminated\<rparr>)
                     | Inl (Panic msg) \<Rightarrow>
                         ([slept, Fetch (path event)], st\<lparr>queue := h', status := Panicked\<rparr>)
                     | Inr (data, version, c') \<Rightarrow>
                         if old <s version then
                           (let now = fetched + int (subscriberDelay e) in
                            ([slept, Fetch (path event), CacheWrite (path event) data,
                              Emit \<lparr>Key = path event, Value = data\<rparr>],
                             st\<lparr>client := c',
                                queue := heap_Push h'
                                   \<lparr>path = path event, nextGet = Add now (VersionPeriod cfg)\<rparr>,
                                secretstore := (secretstore st)(path event \<mapsto> data)\<rparr>))
                         else
                           (let now = fetched in
                            ([slept, Fetch (path event)],
                             st\<lparr>client := c',
                                queue := heap_Push h'
                                   \<lparr>path = path event, nextGet = Add now (VersionPeriod cfg)\<rparr>\<rparr>)))
                  else if isLeasable vtype then
                    (case get e c (path event) of
                       Inl (Error err) \<Rightarrow>
                         ([slept, Fetch (path event),
                           LogError [''Error watching leasable vault secret on path'', path event, err]],
                          st\<lparr>queue := h', status := Terminated\<rparr>)
                     | Inl (Panic msg) \<Rightarrow>
                         ([slept, Fetch (path event)], st\<lparr>queue := h', status := Panicked\<rparr>)
                     | Inr (data, leaseTime, c') \<Rightarrow>
                         (let now = fetched + int (subscriberDelay e) in
                          ([slept, Fetch (path event), CacheWrite (path event) data,
                            Emit \<lparr>Key = path event, Value = data\<rparr>],
                           st\<lparr>client := c',
                              queue := heap_Push h'
                                 \<lparr>path = path event, nextGet = Add now (leaseTime * Second)\<rparr>,
                              secretstore := (secretstore st)(path event \<mapsto> data)\<rparr>)))
                  else ([slept], st\<lparr>queue := h'\<rparr>))))"

text \<open>The loop has no exit of its own, so a run is given by the outside world and the
  fetch-completion time of each of its passes: one pass per element of the list.\<close>

fun run :: "(env \<times> Time) list \<Rightarrow> loop_state \<Rightarrow> effect list \<times> loop_state" where
  "run [] st = ([], st)"
| "run ((e, fetched) # rest) st =
     (case iteration e fetched st of
        (effs, st1) \<Rightarrow> (case run rest st1 of (effs', st2) \<Rightarrow> (effs @ effs', st2)))"

text \<open>The start of \<^verbatim>\<open>watchVault\<close>. The two \<^verbatim>\<open>range\<close> loops visit the keys of a map in an
  order of their own and read the clock at each push: \<open>leaseVisits\<close> and \<open>versionVisits\<close> list
  the keys in the order visited, each with that clock reading.\<close>

record startup =
  leaseVisits :: "(string \<times> Time) list"
  versionVisits :: "(string \<times> Time) list"

fun pushLeases :: "(string \<rightharpoonup> go_int) \<Rightarrow> (string \<times> Time) list \<Rightarrow> watchableHeap \<Rightarrow> watchableHeap" where
  "pushLeases m [] h = h"
| "pushLeases m ((p, now) # rest) h =
     (case m p of
        None \<Rightarrow> pushLeases m rest h
      | Some leaseTime \<Rightarrow>
          pushLeases m rest (heap_Push h \<lparr>path = p, nextGet = Add now (leaseTime * Second)\<rparr>))"

fun pushVersions :: "Duration \<Rightarrow> (string \<rightharpoonup> go_int) \<Rightarrow> (string \<times> Time) list \<Rightarrow> watchableHeap \<Rightarrow> watchableHeap" where
  "pushVersions period m [] h = h"
| "pushVersions period m ((p, now) # rest) h =
     (case m p of
        None \<Rightarrow> pushVersions period m rest h
      | Some _ \<Rightarrow>
          pushVersions period m rest (heap_Push h \<lparr>path = p, nextGet = Add now period\<rparr>))"

definition mapOrNil :: "('k \<rightharpoonup> 'v) option \<Rightarrow> ('k \<rightharpoonup> 'v)" where
  "mapOrNil m = (case m of None \<Rightarrow> Map.empty | Some m' \<Rightarrow> m')"

definition watchVault_start :: "startup \<Rightarrow> vaultClient \<Rightarrow> (string \<rightharpoonup> string) \<Rightarrow> effect list \<times> loop_state" where
  "watchVault_start su c store =
     (let h1 = pushLeases (mapOrNil (leases c)) (leaseVisits su) [] in
      case watchConfig c of
        None \<Rightarrow> ([], \<lparr>client = c, queue = h1, secretstore = store, status = Panicked\<rparr>)
      | Some cfg \<Rightarrow>
          (let h2 = (if VersionPeriod cfg \<noteq> 0
                     then pushVersions (VersionPeriod cfg) (mapOrNil (versions c)) (versionVisits su) h1
                     else h1)
           in
           if Len h2 = 0 then
             ([LogError [''No watchable paths found for vault watching.''], CloseChannel],
              \<lparr>client = c, queue = h2, secretstore = store, status = Terminated\<rparr>)
           else ([], \<lparr>client = c, queue = h2, secretstore = store, status = Running\<rparr>)))"

definition watchVault :: "startup \<Rightarrow> (env \<times> Time) list \<Rightarrow> vaultClient \<Rightarrow> (string \<rightharpoonup> string) \<Rightarrow> effect list \<times> loop_state" where
  "watchVault su sched c store =
     (case watchVault_start su c store of
        (effs, st) \<Rightarrow> (case run sched st of (effs', st') \<Rightarrow> (effs @ effs', st')))"

subsection \<open>AddVault\<close>

text \<open>The loop over \<^verbatim>\<open>paths\<close>; the fetch of the path at position \<open>i\<close> sees the outside
  world \<open>envs i\<close>. The store is returned in either case: an error return leaves the
  assignments made so far in place.\<close>

fun AddVault_loop :: "(nat \<Rightarrow> env) \<Rightarrow> nat \<Rightarrow> vaultClient \<Rightarrow> (string \<rightharpoonup> string) \<Rightarrow> string list
    \<Rightarrow> (string \<rightharpoonup> string) \<times> (fault + vaultClient)" where
  "AddVault_loop envs i c store [] = (store, Inr c)"
| "AddVault_loop envs i c store (p # ps) =
     (case Get (envs i) c p of
        Inl (Error err) \<Rightarrow>
          (store, Inl (Error (''Error while adding vault: '' @ err @ '', path: '' @ p)))
      | Inl (Panic msg) \<Rightarrow> (store, Inl (Panic msg))
      | Inr (data, c') \<Rightarrow> AddVault_loop envs (Suc i) c' (store(p \<mapsto> data)) ps)"

text \<open>The result of \<^verbatim>\<open>AddVault\<close>: the error returned (or the panic), the secret store
  afterwards, and the client the watch goroutine was started with, if it was started.\<close>

record AddVault_result =
  returned :: "fault option"
  stored :: "string \<rightharpoonup> string"
  watched :: "vaultClient option"

text \<open>\<^verbatim>\<open>&vaultClient{client: client, watchConfig: nil}\<close>, and the client once the watch
  configuration is installed (the \<^verbatim>\<open>if watchConfig != nil\<close> block before the loop).\<close>

definition newVaultClient :: vaultClient where
  "newVaultClient = \<lparr>vaults = Map.empty, leases = None, versions = None, watchConfig = None\<rparr>"

definition AddVault_setup :: "VaultWatchConfig option \<Rightarrow> vaultClient \<Rightarrow> vaultClient" where
  "AddVault_setup wc c =
     (case wc of
        None \<Rightarrow> c
      | Some cfg \<Rightarrow>
          c\<lparr>watchConfig := Some cfg, leases := Some Map.empty,
            versions := (if VersionPeriod cfg \<noteq> 0 then Some Map.empty else versions c)\<rparr>)"

definition AddVault :: "env \<Rightarrow> (nat \<Rightarrow> env) \<Rightarrow> (string \<rightharpoonup> string) \<Rightarrow> VaultWatchConfig option \<Rightarrow> string list
    \<Rightarrow> AddVault_result" where
  "AddVault e0 envs store wc paths =
     (case ConfigureVault e0 newVaultClient of
        Inl f \<Rightarrow> \<lparr>returned = Some f, stored = store, watched = None\<rparr>
      | Inr c \<Rightarrow>
          (case AddVault_loop envs 0 (AddVault_setup wc c) store paths of
             (store', Inl f) \<Rightarrow> \<lparr>returned = Some f, stored = store', watched = None\<rparr>
           | (store', Inr c') \<Rightarrow>
               \<lparr>returned = None, stored = store',
                watched = (case wc of None \<Rightarrow> None | Some _ \<Rightarrow> Some c')\<rparr>))"

subsection \<open>A small installation, for concrete runs\<close>

text \<open>A Vault with a \<^verbatim>\<open>kv\<close> mount \<^verbatim>\<open>kv/\<close> holding the secret \<^verbatim>\<open>app\<close> (field
  \<^verbatim>\<open>password\<close>, at the given version) and a \<^verbatim>\<open>database\<close> mount \<^verbatim>\<open>db/\<close> with the role
  \<^verbatim>\<open>role\<close> (credentials leased for the given number of seconds); the subscriber takes
  every event at once.\<close>

definition example_env :: "go_int \<Rightarrow> go_int \<Rightarrow> env" where
  "example_env version lease =
     \<lparr>mountOrder = [''kv/'', ''db/''],
      InternalUiListEnabledVisibleMounts =
        Inr [(''sys/'', AOther),
             (''kv/'', AMap [(''type'', AString ''kv'')]),
             (''db/'', AMap [(''type'', AString ''database'')])],
      KvV2Read = (\<lambda>key mountPath.
        if mountPath = ''kv'' \<and> key = ''app''
        then Inr \<lparr>Data = [''password'' \<mapsto> AString ''s3cr3t''],
                  Metadata = [''version'' \<mapsto> ANumber ''n'']\<rparr>
        else Inl ''404 Not Found''),
      DatabaseGenerateCredentials = (\<lambda>role mountPath.
        if mountPath = ''db'' \<and> role = ''role''
        then Inr \<lparr>CredData = [''username'' \<mapsto> AString ''u'', ''password'' \<mapsto> AString ''p''],
                  LeaseDuration = lease\<rparr>
        else Inl ''404 Not Found''),
      Int64 = (\<lambda>n. Inr version),
      subscriberDelay = 0\<rparr>"

text \<open>The same Vault, unreachable.\<close>

definition unreachable_env :: env where
  "unreachable_env =
     \<lparr>mountOrder = [''kv/'', ''db/''],
      InternalUiListEnabledVisibleMounts = Inl ''connection refused'',
      KvV2Read = (\<lambda>key mountPath. Inl ''connection refused''),
      DatabaseGenerateCredentials = (\<lambda>role mountPath. Inl ''connection refused''),
      Int64 = (\<lambda>n. Inl ''invalid syntax''),
      subscriberDelay = 0\<rparr>"

text \<open>A client watching with a version period of ten seconds, the secret recorded at
  version 5, and the watch loop running on a given queue.\<close>

definition example_client :: vaultClient where
  "example_client =
     \<lparr>vaults = [''kv/'' \<mapsto> ''kv'', ''db/'' \<mapsto> ''database''],
      leases = Some Map.empty,
      versions = Some [''kv/app:password'' \<mapsto> 5],
      watchConfig = Some \<lparr>VersionPeriod = 10 * Second\<rparr>\<rparr>"

definition example_state :: "watchableHeap \<Rightarrow> loop_state" where
  "example_state h =
     \<lparr>client = example_client, queue = h, secretstore = Map.empty, status = Running\<rparr>"




subsection \<open>Notions for the proofs about the queue\<close>


definition parent :: "nat \<Rightarrow> nat" where
  "parent c = (c - 1) div 2"




definition minChild :: "watchableHeap \<Rightarrow> nat \<Rightarrow> nat \<Rightarrow> nat" where
  "minChild h i n = (if 2 * i + 2 < n \<and> Less h (2 * i + 2) (2 * i + 1) then 2 * i + 2 else 2 * i + 1)"

section \<open>The queue is a binary heap on the due second\<close>


lemma parent_fix: "(parent c = c) = (c = 0)"
  unfolding parent_def by arith



lemma length_Swap [simp]: "length (Swap h i j) = length h"
  by (simp add: Swap_def)

lemma mset_Swap: "i < length h \<Longrightarrow> j < length h \<Longrightarrow> mset (Swap h i j) = mset h"
  unfolding Swap_def by (simp add: mset_swap)

lemma nth_Swap:
  "i < length h \<Longrightarrow> j < length h \<Longrightarrow> c < length h \<Longrightarrow>
   Swap h i j ! c = (if c = j then h ! i else if c = i then h ! j else h ! c)"
  by (simp add: Swap_def nth_list_update)

lemma up_unfold:
  "up h j = (if parent j = j \<or> \<not> Less h j (parent j) then h else up (Swap h (parent j) j) (parent j))"
  by (subst up.simps) (simp add: Let_def parent_def)

lemma up_induct [case_names step]:
  assumes "\<And>h j. (parent j \<noteq> j \<Longrightarrow> Less h j (parent j) \<Longrightarrow> P (Swap h (parent j) j) (parent j)) \<Longrightarrow> P h j"
  shows "P h j"
proof (induction h j rule: up.induct)
  case (1 h j)
  show ?case
  proof (rule assms)
    assume "parent j \<noteq> j" "Less h j (parent j)"
    then show "P (Swap h (parent j) j) (parent j)"
      using "1.IH" [OF refl] by (simp add: parent_def)
  qed
qed


lemma length_up [simp]: "length (up h j) = length h"
  by (induction h j rule: up_induct) (subst up_unfold, simp)






lemma down_unfold:
  "down h i n =
     (if n \<le> 2 * i + 1 then h
      else if \<not> Less h (minChild h i n) i then h
      else down (Swap h i (minChild h i n)) (minChild h i n) n)"
  by (subst down.simps) (simp add: Let_def minChild_def)

lemma down_induct [case_names step]:
  assumes "\<And>h i n. (2 * i + 1 < n \<Longrightarrow> Less h (minChild h i n) i \<Longrightarrow>
              P (Swap h i (minChild h i n)) (minChild h i n) n) \<Longrightarrow> P h i n"
  shows "P h i n"
proof (induction h i n rule: down.induct)
  case (1 h i n)
  show ?case
  proof (rule assms)
    assume a: "2 * i + 1 < n" "Less h (minChild h i n) i"
    then have nle: "\<not> n \<le> 2 * i + 1" by simp
    have mc: "(if 2 * i + 1 + 1 < n \<and> Less h (2 * i + 1 + 1) (2 * i + 1) then 2 * i + 1 + 1 else 2 * i + 1)
        = minChild h i n"
      by (simp add: minChild_def)
    from "1.IH" [OF refl nle refl, unfolded mc] a(2)
    show "P (Swap h i (minChild h i n)) (minChild h i n) n" by simp
  qed
qed


lemma minChild_less: "2 * i + 1 < n \<Longrightarrow> minChild h i n < n"
  by (simp add: minChild_def)



lemma length_down [simp]: "length (down h i n) = length h"
  by (induction h i n rule: down_induct) (subst down_unfold, simp)

lemma mset_down: "n \<le> length h \<Longrightarrow> i < n \<Longrightarrow> mset (down h i n) = mset h"
proof (induction h i n rule: down_induct)
  case (step h i n)
  show ?case
  proof (cases "n \<le> 2 * i + 1 \<or> \<not> Less h (minChild h i n) i")
    case True
    then show ?thesis by (subst down_unfold) auto
  next
    case False
    then have c: "2 * i + 1 < n" "Less h (minChild h i n) i" by simp_all
    have jn: "minChild h i n < n" using c(1) by (rule minChild_less)
    have "mset (down (Swap h i (minChild h i n)) (minChild h i n) n) = mset (Swap h i (minChild h i n))"
      using step.IH [OF c] step.prems jn by simp
    also have "\<dots> = mset h" using step.prems jn by (simp add: mset_Swap)
    finally show ?thesis using c by (subst down_unfold) simp
  qed
qed

lemma nth_down_above: "n \<le> c \<Longrightarrow> c < length h \<Longrightarrow> n \<le> length h \<Longrightarrow> i < n \<Longrightarrow> down h i n ! c = h ! c"
proof (induction h i n rule: down_induct)
  case (step h i n)
  show ?case
  proof (cases "n \<le> 2 * i + 1 \<or> \<not> Less h (minChild h i n) i")
    case True
    then show ?thesis by (subst down_unfold) auto
  next
    case False
    then have c: "2 * i + 1 < n" "Less h (minChild h i n) i" by simp_all
    have jn: "minChild h i n < n" using c(1) by (rule minChild_less)
    have "down (Swap h i (minChild h i n)) (minChild h i n) n ! c = Swap h i (minChild h i n) ! c"
      using step.IH [OF c] step.prems jn by simp
    also have "\<dots> = h ! c" using step.prems jn by (simp add: nth_Swap)
    finally show ?thesis using c by (subst down_unfold) simp
  qed
qed



lemma down_last:
  assumes ne: "h \<noteq> []"
  shows "down (Swap h 0 (length h - 1)) 0 (length h - 1) ! (length h - 1) = h ! 0"
proof (cases "length h - 1 = 0")
  case True
  then show ?thesis by (subst down_unfold) (simp add: Swap_def)
next
  case False
  have pos: "length h - 1 < length h" "0 < length h" using ne by simp_all
  from False have "down (Swap h 0 (length h - 1)) 0 (length h - 1) ! (length h - 1)
      = Swap h 0 (length h - 1) ! (length h - 1)"
    using pos by (intro nth_down_above) simp_all
  also have "\<dots> = h ! 0" using pos by (simp add: nth_Swap)
  finally show ?thesis .
qed

lemma heap_Pop_Inr:
  assumes ne: "h \<noteq> []"
  shows "heap_Pop h = Inr (h ! 0, take (length h - 1) (down (Swap h 0 (length h - 1)) 0 (length h - 1)))"
  using ne down_last [OF ne] by (simp add: heap_Pop_def Pop_def Len_def Let_def)

lemma mset_heap_Pop:
  assumes "heap_Pop h = Inr (e, h')"
  shows "mset h = add_mset e (mset h')"
proof -
  have ne: "h \<noteq> []" using assms by (auto simp: heap_Pop_def Len_def)
  define n where "n = length h - 1"
  define h2 where "h2 = down (Swap h 0 n) 0 n"
  have nl: "n < length h" "0 < length h" using ne by (simp_all add: n_def)
  have l2: "length h2 = Suc n" using ne by (simp add: h2_def n_def)
  have e: "e = h ! 0" and h': "h' = take n h2"
    using assms heap_Pop_Inr [OF ne] by (simp_all add: n_def h2_def)
  have last: "h2 ! n = h ! 0"
    using down_last [OF ne] by (simp add: n_def h2_def)
  have m2: "mset h2 = mset h"
  proof (cases "n = 0")
    case True
    then show ?thesis unfolding h2_def by (subst down_unfold) (simp add: Swap_def)
  next
    case False
    then show ?thesis unfolding h2_def using nl by (simp add: mset_down mset_Swap)
  qed
  have "take n h2 @ [h2 ! n] = h2" using l2 by (simp add: take_Suc_conv_app_nth [symmetric])
  then have "mset h2 = mset (take n h2 @ [h2 ! n])" by simp
  then have "mset h2 = add_mset (h2 ! n) (mset (take n h2))" by simp
  then show ?thesis using m2 last e h' by simp
qed




section \<open>Every queue of the watch loop is built by heap.Push and heap.Pop\<close>

lemma heap_ops_append:
  "heap_ops (ops @ ops') h = (case heap_ops ops h of Inl f \<Rightarrow> Inl f | Inr h1 \<Rightarrow> heap_ops ops' h1)"
proof (induction ops arbitrary: h)
  case Nil
  then show ?case by simp
next
  case (Cons x ops)
  then show ?case by (cases x) (auto split: sum.splits)
qed

lemma pushLeases_ops: "\<exists>ops. heap_ops ops h = Inr (pushLeases m visits h)"
proof (induction visits arbitrary: h)
  case Nil
  have "heap_ops [] h = Inr (pushLeases m [] h)" by simp
  then show ?case by blast
next
  case (Cons v visits)
  obtain p now where v: "v = (p, now)" by (cases v)
  show ?case
  proof (cases "m p")
    case None
    with Cons.IH [of h] v show ?thesis by simp
  next
    case (Some leaseTime)
    let ?w = "\<lparr>path = p, nextGet = Add now (leaseTime * Second)\<rparr>"
    from Cons.IH [of "heap_Push h ?w"] obtain ops
      where "heap_ops ops (heap_Push h ?w) = Inr (pushLeases m visits (heap_Push h ?w))" by blast
    then have "heap_ops (OpPush ?w # ops) h = Inr (pushLeases m (v # visits) h)"
      using v Some by simp
    then show ?thesis by blast
  qed
qed

lemma pushVersions_ops: "\<exists>ops. heap_ops ops h = Inr (pushVersions period m visits h)"
proof (induction visits arbitrary: h)
  case Nil
  have "heap_ops [] h = Inr (pushVersions period m [] h)" by simp
  then show ?case by blast
next
  case (Cons v visits)
  obtain p now where v: "v = (p, now)" by (cases v)
  show ?case
  proof (cases "m p")
    case None
    with Cons.IH [of h] v show ?thesis by simp
  next
    case (Some version)
    let ?w = "\<lparr>path = p, nextGet = Add now period\<rparr>"
    from Cons.IH [of "heap_Push h ?w"] obtain ops
      where "heap_ops ops (heap_Push h ?w) = Inr (pushVersions period m visits (heap_Push h ?w))"
      by blast
    then have "heap_ops (OpPush ?w # ops) h = Inr (pushVersions period m (v # visits) h)"
      using v Some by simp
    then show ?thesis by blast
  qed
qed

lemma heap_ops_trans:
  assumes "heap_ops ops1 h0 = Inr h1" and "heap_ops ops2 h1 = Inr h2"
  shows "\<exists>ops. heap_ops ops h0 = Inr h2"
proof -
  have "heap_ops (ops1 @ ops2) h0 = Inr h2" using assms by (simp add: heap_ops_append)
  then show ?thesis by blast
qed

lemma watchVault_start_queue:
  "queue (snd (watchVault_start su c store)) = pushLeases (mapOrNil (leases c)) (leaseVisits su) [] \<or>
   (\<exists>period. queue (snd (watchVault_start su c store))
      = pushVersions period (mapOrNil (versions c)) (versionVisits su)
          (pushLeases (mapOrNil (leases c)) (leaseVisits su) []))"
  by (auto simp: watchVault_start_def Let_def split: option.splits)

lemma watchVault_start_ops:
  "\<exists>ops. heap_ops ops [] = Inr (queue (snd (watchVault_start su c store)))"
proof -
  let ?h1 = "pushLeases (mapOrNil (leases c)) (leaseVisits su) []"
  obtain ops1 where o1: "heap_ops ops1 [] = Inr ?h1" using pushLeases_ops by blast
  from watchVault_start_queue [of su c store] show ?thesis
  proof
    assume "queue (snd (watchVault_start su c store)) = ?h1"
    with o1 show ?thesis by auto
  next
    assume "\<exists>period. queue (snd (watchVault_start su c store))
      = pushVersions period (mapOrNil (versions c)) (versionVisits su) ?h1"
    then obtain period where q: "queue (snd (watchVault_start su c store))
      = pushVersions period (mapOrNil (versions c)) (versionVisits su) ?h1" by blast
    obtain ops2 where "heap_ops ops2 ?h1
      = Inr (pushVersions period (mapOrNil (versions c)) (versionVisits su) ?h1)"
      using pushVersions_ops by blast
    from heap_ops_trans [OF o1 this] q show ?thesis by simp
  qed
qed

lemma iteration_queue:
  "queue (snd (iteration e now st)) = queue st \<or>
   (\<exists>event h'. heap_Pop (queue st) = Inr (event, h') \<and>
      (queue (snd (iteration e now st)) = h' \<or>
       (\<exists>w. queue (snd (iteration e now st)) = heap_Push h' w)))"
  by (auto simp: iteration_def Let_def split: sum.splits option.splits fault.splits prod.splits)

lemma iteration_ops:
  "\<exists>ops. heap_ops ops (queue st) = Inr (queue (snd (iteration e now st)))"
proof -
  from iteration_queue [of e now st] consider
    "queue (snd (iteration e now st)) = queue st"
    | event h' where "heap_Pop (queue st) = Inr (event, h')" "queue (snd (iteration e now st)) = h'"
    | event h' w where "heap_Pop (queue st) = Inr (event, h')"
        "queue (snd (iteration e now st)) = heap_Push h' w"
    by blast
  then show ?thesis
  proof cases
    case 1
    then have "heap_ops [] (queue st) = Inr (queue (snd (iteration e now st)))" by simp
    then show ?thesis by blast
  next
    case 2
    then have "heap_ops [OpPop] (queue st) = Inr (queue (snd (iteration e now st)))" by simp
    then show ?thesis by blast
  next
    case 3
    then have "heap_ops [OpPop, OpPush w] (queue st) = Inr (queue (snd (iteration e now st)))"
      by simp
    then show ?thesis by blast
  qed
qed

lemma run_ops: "\<exists>ops. heap_ops ops (queue st) = Inr (queue (snd (run sched st)))"
proof (induction sched arbitrary: st)
  case Nil
  have "heap_ops [] (queue st) = Inr (queue (snd (run [] st)))" by simp
  then show ?case by blast
next
  case (Cons x sched)
  obtain e now where x: "x = (e, now)" by (cases x)
  obtain ops1 where o1: "heap_ops ops1 (queue st) = Inr (queue (snd (iteration e now st)))"
    using iteration_ops by blast
  obtain ops2 where o2: "heap_ops ops2 (queue (snd (iteration e now st)))
      = Inr (queue (snd (run sched (snd (iteration e now st)))))"
    using Cons.IH by blast
  have "snd (run (x # sched) st) = snd (run sched (snd (iteration e now st)))"
    using x by (simp split: prod.splits)
  with heap_ops_trans [OF o1 o2] show ?case by simp
qed

lemma watchVault_queue_ops:
  "\<exists>ops. heap_ops ops [] = Inr (queue (snd (watchVault su sched c store)))"
proof -
  obtain ops1 where o1: "heap_ops ops1 [] = Inr (queue (snd (watchVault_start su c store)))"
    using watchVault_start_ops by blast
  obtain ops2 where o2: "heap_ops ops2 (queue (snd (watchVault_start su c store)))
      = Inr (queue (snd (run sched (snd (watchVault_start su c store)))))"
    using run_ops by blast
  have "snd (watchVault su sched c store) = snd (run sched (snd (watchVault_start su c store)))"
    by (simp add: watchVault_def split: prod.splits)
  with heap_ops_trans [OF o1 o2] show ?thesis by simp
qed








section \<open>Facts about the model used by several claims\<close>

lemma Split_no_sep: "sep \<notin> set s \<Longrightarrow> Split s sep = [s]"
  by (induction s) auto

lemma heap_Pop_Len: "heap_Pop h = Inr x \<Longrightarrow> Len h \<noteq> 0"
  by (auto simp: heap_Pop_def split: if_splits)

lemma get_watchConfig: "get e c key = Inr (data, n, c') \<Longrightarrow> watchConfig c' = watchConfig c"
  by (auto simp: get_def Let_def split: sum.splits prod.splits list.splits option.splits if_splits)

lemma run_stopped: "status st \<noteq> Running \<Longrightarrow> run sched st = ([], st)"
  by (induction sched) (auto simp: iteration_def)

lemma heap_Pop_single: "heap_Pop [w] = Inr (w, [])"
  by (simp add: heap_Pop_Inr)

lemma heap_Push_empty: "heap_Push [] w = [w]"
  unfolding heap_Push_def Push_def Len_def Let_def by (subst up_unfold) (simp add: parent_fix)

lemma example_get_kv:
  "get (example_env v l) example_client ''kv/app:password''
     = Inr (''s3cr3t'', v, example_client\<lparr>versions := Some [''kv/app:password'' \<mapsto> v]\<rparr>)"
  by (simp add: get_def getVaultTypePath_def getKV2_def example_env_def example_client_def
        HasPrefix_def TrimPrefix_def Second_def Let_def)

lemma example_get_db:
  "get (example_env v l) example_client ''db/role''
     = Inr (''u:p'', l, example_client\<lparr>leases := Some [''db/role'' \<mapsto> l]\<rparr>)"
  by (simp add: get_def getVaultTypePath_def getDBCreds_def example_env_def example_client_def
        HasPrefix_def TrimPrefix_def Let_def)

lemma example_get_unreachable:
  "get unreachable_env example_client ''kv/app:password'' = Inl (Error ''connection refused'')"
  by (simp add: get_def getVaultTypePath_def getKV2_def unreachable_env_def example_client_def
        HasPrefix_def TrimPrefix_def Let_def)

lemma example_types:
  "eventVaultType example_client ''kv/app:password'' = ''kv''"
  "eventVaultType example_client ''db/role'' = ''database''"
  by (simp_all add: eventVaultType_def example_client_def)

lemma example_config:
  "watchConfig example_client = Some \<lparr>VersionPeriod = 10 * Second\<rparr>"
  "VersionPeriod \<lparr>VersionPeriod = 10 * Second\<rparr> \<noteq> 0"
  "oldVersion example_client ''kv/app:password'' = 5"
  by (simp_all add: example_client_def Second_def oldVersion_def)

lemma pushLeases_empty: "pushLeases Map.empty visits h = h"
  by (induction visits arbitrary: h) auto

lemma pushVersions_empty: "pushVersions period Map.empty visits h = h"
  by (induction visits arbitrary: h) auto

lemma AddVault_loop_append:
  "AddVault_loop envs i c store pre = (store1, Inr c1) \<Longrightarrow>
   AddVault_loop envs i c store (pre @ rest) = AddVault_loop envs (i + length pre) c1 store1 rest"
  by (induction envs i c store pre rule: AddVault_loop.induct)
     (auto split: sum.splits fault.splits)

lemma AddVault_loop_dom:
  "AddVault_loop envs i c store pre = (store1, Inr c1) \<Longrightarrow> dom store1 = dom store \<union> set pre"
proof (induction pre arbitrary: i c store)
  case Nil
  then show ?case by simp
next
  case (Cons p pre)
  from Cons.prems obtain data c' where
    l: "AddVault_loop envs (Suc i) c' (store(p \<mapsto> data)) pre = (store1, Inr c1)"
    by (auto split: sum.splits fault.splits)
  have "dom store1 = dom (store(p \<mapsto> data)) \<union> set pre" by (rule Cons.IH [OF l])
  then show ?case by auto
qed

lemma TrimPrefix_append: "HasPrefix s pre \<Longrightarrow> pre @ TrimPrefix s pre = s"
  by (simp add: HasPrefix_def TrimPrefix_def) (metis append_take_drop_id)

lemma get_kv_versions:
  assumes "getVaultTypePath e c key = Inr (''kv'', mountPath)"
    and "watchConfig c = Some cfg" and "VersionPeriod cfg \<noteq> 0"
    and "get e c key = Inr (data, version, c')"
  shows "oldVersion c' (mountPath @ ''/'' @ TrimPrefix key (mountPath @ ''/'')) = version"
  using assms
  by (auto simp: get_def Let_def oldVersion_def split: sum.splits prod.splits list.splits option.splits)

lemma sint_mul_Second:
  assumes "- 9223372036 \<le> sint (l :: go_int)" "sint l \<le> 9223372036"
  shows "sint (l * Second) = sint l * 1000000000"
proof -
  have "sint (l * 1000000000) = signed_take_bit 63 (sint l * sint (1000000000 :: 64 word))"
    by (simp add: sint_word_ariths)
  also have "sint (1000000000 :: 64 word) = 1000000000" by simp
  also have "signed_take_bit 63 (sint l * 1000000000) = sint l * 1000000000"
    using assms by (intro signed_take_bit_int_eq_self) simp_all
  finally show ?thesis by (simp add: Second_def)
qed

lemma example_ConfigureVault:
  "ConfigureVault (example_env v l) newVaultClient
     = Inr (newVaultClient\<lparr>vaults := [''kv/'' \<mapsto> ''kv'', ''db/'' \<mapsto> ''database'']\<rparr>)"
  by (simp add: ConfigureVault_def example_env_def HasPrefix_def)

lemma getKV2_subscriberDelay: "getKV2 (e\<lparr>subscriberDelay := d\<rparr>) = getKV2 e"
  by (auto simp: getKV2_def fun_eq_iff split: sum.splits option.splits any.splits)

lemma getDBCreds_subscriberDelay: "getDBCreds (e\<lparr>subscriberDelay := d\<rparr>) = getDBCreds e"
  by (auto simp: getDBCreds_def fun_eq_iff split: sum.splits option.splits any.splits)

lemma getVaultTypePath_subscriberDelay:
  "getVaultTypePath (e\<lparr>subscriberDelay := d\<rparr>) = getVaultTypePath e"
  by (simp add: getVaultTypePath_def fun_eq_iff)

lemma get_subscriberDelay: "get (e\<lparr>subscriberDelay := d\<rparr>) c key = get e c key"
  unfolding get_def getKV2_subscriberDelay getDBCreds_subscriberDelay
    getVaultTypePath_subscriberDelay by (rule refl)

lemma example_delay: "subscriberDelay (example_env v l) = 0"
  by (simp add: example_env_def)

lemma example_get_db_delayed:
  "get ((example_env v l)\<lparr>subscriberDelay := d\<rparr>) example_client ''db/role''
     = Inr (''u:p'', l, example_client\<lparr>leases := Some [''db/role'' \<mapsto> l]\<rparr>)"
  by (simp only: get_subscriberDelay example_get_db)

lemma example_get_kv_delayed:
  "get ((example_env v l)\<lparr>subscriberDelay := d\<rparr>) example_client ''kv/app:password''
     = Inr (''s3cr3t'', v, example_client\<lparr>versions := Some [''kv/app:password'' \<mapsto> v]\<rparr>)"
  by (simp only: get_subscriberDelay example_get_kv)





section \<open>The claims\<close>

text \<open>
  Claim C1. A pass of the watch loop that services a versioned (\<^verbatim>\<open>kv\<close>) path and whose
  fetch succeeds writes the cache and emits exactly one event if the fetched version is
  strictly greater than the version recorded for the path before the fetch; if it is equal
  or lower, the pass writes nothing to the cache and emits nothing.
\<close>

theorem versioned_fetch_writes_iff_newer:
  assumes "status st = Running"
    and "heap_Pop (queue st) = Inr (event, h')"
    and "watchConfig (client st) = Some cfg"
    and "VersionPeriod cfg \<noteq> 0"
    and "isVersionable (eventVaultType (client st) (path event))"
    and "get e (client st) (path event) = Inr (data, version, c')"
  shows "fst (iteration e now st) =
           [SleepUntil (nextGet event), Fetch (path event)] @
           (if oldVersion (client st) (path event) <s version
            then [CacheWrite (path event) data, Emit \<lparr>Key = path event, Value = data\<rparr>]
            else []) \<and>
         secretstore (snd (iteration e now st)) =
           (if oldVersion (client st) (path event) <s version
            then (secretstore st)(path event \<mapsto> data)
            else secretstore st)"
  using assms heap_Pop_Len [OF assms(2)] by (simp add: iteration_def Let_def)

theorem versioned_fetch_writes_iff_newer_witness:
  "fst (iteration (example_env 6 60) 1000 (example_state [\<lparr>path = ''kv/app:password'', nextGet = 100\<rparr>]))
     = [SleepUntil 100, Fetch ''kv/app:password'', CacheWrite ''kv/app:password'' ''s3cr3t'',
        Emit \<lparr>Key = ''kv/app:password'', Value = ''s3cr3t''\<rparr>] \<and>
   fst (iteration (example_env 5 60) 1000 (example_state [\<lparr>path = ''kv/app:password'', nextGet = 100\<rparr>]))
     = [SleepUntil 100, Fetch ''kv/app:password'']"
proof -
  let ?w = "\<lparr>path = ''kv/app:password'', nextGet = 100\<rparr>"
  let ?st = "example_state [?w]"
  have h1: "status ?st = Running" by (simp add: example_state_def)
  have h2: "heap_Pop (queue ?st) = Inr (?w, [])" by (simp add: example_state_def heap_Pop_single)
  have h3: "watchConfig (client ?st) = Some \<lparr>VersionPeriod = 10 * Second\<rparr>"
    by (simp add: example_state_def example_config)
  have h4: "VersionPeriod \<lparr>VersionPeriod = 10 * Second\<rparr> \<noteq> 0" by (rule example_config)
  have h5: "isVersionable (eventVaultType (client ?st) (path ?w))"
    by (simp add: example_state_def example_types isVersionable_def)
  have h6: "get (example_env v 60) (client ?st) (path ?w)
      = Inr (''s3cr3t'', v, example_client\<lparr>versions := Some [''kv/app:password'' \<mapsto> v]\<rparr>)" for v
    by (simp add: example_state_def example_get_kv)
  have old: "oldVersion (client ?st) (path ?w) = 5"
    by (simp add: example_state_def example_config)
  have "(5::go_int) <s 6" "\<not> (5::go_int) <s 5" by simp_all
  with versioned_fetch_writes_iff_newer [OF h1 h2 h3 h4 h5 h6 [of 6], of 1000]
    versioned_fetch_writes_iff_newer [OF h1 h2 h3 h4 h5 h6 [of 5], of 1000] old
  show ?thesis by simp
qed

text \<open>
  Claim C2. When the fetch of the path being serviced returns an error, the loop ends for
  good: the failed path is not pushed back (the queue is the queue after the pop, one entry
  fewer), and whatever the outside world does afterwards there is no further effect, so no
  path still queued is fetched.
\<close>

theorem fetch_error_terminates_loop:
  assumes "status st = Running"
    and "heap_Pop (queue st) = Inr (event, h')"
    and "watchConfig (client st) = Some cfg"
    and "VersionPeriod cfg \<noteq> 0 \<and> isVersionable (eventVaultType (client st) (path event))
         \<or> isLeasable (eventVaultType (client st) (path event))"
    and "get e (client st) (path event) = Inl (Error err)"
  shows "status (snd (iteration e now st)) = Terminated \<and>
         queue (snd (iteration e now st)) = h' \<and>
         mset (queue st) = add_mset event (mset h') \<and>
         (\<forall>sched. run sched (snd (iteration e now st)) = ([], snd (iteration e now st)))"
proof -
  have st: "status (snd (iteration e now st)) = Terminated"
    and q: "queue (snd (iteration e now st)) = h'"
    using assms heap_Pop_Len [OF assms(2)] by (auto simp: iteration_def Let_def)
  have "\<And>sched. run sched (snd (iteration e now st)) = ([], snd (iteration e now st))"
    using st by (intro run_stopped) simp
  then show ?thesis using st q mset_heap_Pop [OF assms(2)] by simp
qed

theorem fetch_error_terminates_loop_witness:
  "status (snd (iteration unreachable_env 1000
      (example_state [\<lparr>path = ''kv/app:password'', nextGet = 100\<rparr>]))) = Terminated \<and>
   queue (snd (iteration unreachable_env 1000
      (example_state [\<lparr>path = ''kv/app:password'', nextGet = 100\<rparr>]))) = [] \<and>
   fst (run [(example_env 6 60, 2000), (example_env 7 60, 3000)]
      (snd (iteration unreachable_env 1000
         (example_state [\<lparr>path = ''kv/app:password'', nextGet = 100\<rparr>])))) = []"
proof -
  let ?w = "\<lparr>path = ''kv/app:password'', nextGet = 100\<rparr>"
  let ?st = "example_state [?w]"
  have h1: "status ?st = Running" by (simp add: example_state_def)
  have h2: "heap_Pop (queue ?st) = Inr (?w, [])" by (simp add: example_state_def heap_Pop_single)
  have h3: "watchConfig (client ?st) = Some \<lparr>VersionPeriod = 10 * Second\<rparr>"
    by (simp add: example_state_def example_config)
  have h4: "VersionPeriod \<lparr>VersionPeriod = 10 * Second\<rparr> \<noteq> 0
        \<and> isVersionable (eventVaultType (client ?st) (path ?w))
      \<or> isLeasable (eventVaultType (client ?st) (path ?w))"
    by (simp add: example_state_def example_types isVersionable_def Second_def)
  have h5: "get unreachable_env (client ?st) (path ?w) = Inl (Error ''connection refused'')"
    by (simp add: example_state_def example_get_unreachable)
  from fetch_error_terminates_loop [OF h1 h2 h3 h4 h5, of 1000] show ?thesis by simp
qed

text \<open>
  Claim C3, as stated, fails: the recorded version is not kept when a fetch returns a lower
  one. \<^verbatim>\<open>get\<close> records the version of every successful fetch. With version 5 recorded
  for \<^verbatim>\<open>kv/app:password\<close>, a scheduled fetch that returns version 3 emits nothing and
  leaves version 3 recorded.
\<close>

theorem lower_version_overwrites_recorded_counterexample:
  "oldVersion (client (example_state [\<lparr>path = ''kv/app:password'', nextGet = 100\<rparr>]))
      ''kv/app:password'' = 5 \<and>
   get (example_env 3 60) (client (example_state [\<lparr>path = ''kv/app:password'', nextGet = 100\<rparr>]))
      ''kv/app:password''
     = Inr (''s3cr3t'', 3, example_client\<lparr>versions := Some [''kv/app:password'' \<mapsto> 3]\<rparr>) \<and>
   \<not> (5 :: go_int) <s 3 \<and>
   oldVersion (client (snd (iteration (example_env 3 60) 1000
      (example_state [\<lparr>path = ''kv/app:password'', nextGet = 100\<rparr>])))) ''kv/app:password'' = 3"
proof -
  let ?st = "example_state [\<lparr>path = ''kv/app:password'', nextGet = 100\<rparr>]"
  have c: "client ?st = example_client" by (simp add: example_state_def)
  have after: "client (snd (iteration (example_env 3 60) 1000 ?st))
      = example_client\<lparr>versions := Some [''kv/app:password'' \<mapsto> 3]\<rparr>"
    by (simp add: iteration_def example_state_def heap_Pop_single example_config example_types
          isVersionable_def example_get_kv Len_def Let_def Second_def)
  have "oldVersion (example_client\<lparr>versions := Some [''kv/app:password'' \<mapsto> 3]\<rparr>)
      ''kv/app:password'' = 3"
    by (simp add: oldVersion_def)
  with after c show ?thesis by (simp add: example_config example_get_kv)
qed

text \<open>
  Claim C3, amended. For a versioned path under a mount whose name ends in \<^verbatim>\<open>"/"\<close>, every
  successful scheduled fetch sets the last-recorded version of the path to the fetched
  version, whether that is greater than, equal to or lower than the version recorded before:
  an equal version leaves the recorded value as it was, a lower one overwrites it.
\<close>

theorem versioned_fetch_records_fetched_version:
  assumes "status st = Running"
    and "heap_Pop (queue st) = Inr (event, h')"
    and "watchConfig (client st) = Some cfg"
    and "VersionPeriod cfg \<noteq> 0"
    and "isVersionable (eventVaultType (client st) (path event))"
    and "getVaultTypePath e (client st) (path event) = Inr (''kv'', mountPath)"
    and "HasPrefix (path event) (mountPath @ ''/'')"
    and "get e (client st) (path event) = Inr (data, version, c')"
  shows "oldVersion (client (snd (iteration e now st))) (path event) = version"
proof -
  have "client (snd (iteration e now st)) = c'"
    using assms heap_Pop_Len [OF assms(2)] by (simp add: iteration_def Let_def)
  moreover have "oldVersion c' ((mountPath @ ''/'') @ TrimPrefix (path event) (mountPath @ ''/'')) = version"
    using get_kv_versions [OF assms(6,3,4,8)] by simp
  ultimately show ?thesis using TrimPrefix_append [OF assms(7)] by simp
qed

theorem versioned_fetch_records_fetched_version_witness:
  "oldVersion (client (snd (iteration (example_env 3 60) 1000
      (example_state [\<lparr>path = ''kv/app:password'', nextGet = 100\<rparr>])))) ''kv/app:password'' = 3 \<and>
   oldVersion (client (snd (iteration (example_env 7 60) 1000
      (example_state [\<lparr>path = ''kv/app:password'', nextGet = 100\<rparr>])))) ''kv/app:password'' = 7"
proof -
  let ?w = "\<lparr>path = ''kv/app:password'', nextGet = 100\<rparr>"
  let ?st = "example_state [?w]"
  have h1: "status ?st = Running" by (simp add: example_state_def)
  have h2: "heap_Pop (queue ?st) = Inr (?w, [])" by (simp add: example_state_def heap_Pop_single)
  have h3: "watchConfig (client ?st) = Some \<lparr>VersionPeriod = 10 * Second\<rparr>"
    by (simp add: example_state_def example_config)
  have h4: "VersionPeriod \<lparr>VersionPeriod = 10 * Second\<rparr> \<noteq> 0" by (rule example_config)
  have h5: "isVersionable (eventVaultType (client ?st) (path ?w))"
    by (simp add: example_state_def example_types isVersionable_def)
  have h6: "getVaultTypePath (example_env v 60) (client ?st) (path ?w) = Inr (''kv'', ''kv'')" for v
    by (simp add: example_state_def getVaultTypePath_def example_env_def example_client_def
          HasPrefix_def)
  have h7: "HasPrefix (path ?w) (''kv'' @ ''/'')" by (simp add: HasPrefix_def)
  have h8: "get (example_env v 60) (client ?st) (path ?w)
      = Inr (''s3cr3t'', v, example_client\<lparr>versions := Some [''kv/app:password'' \<mapsto> v]\<rparr>)" for v
    by (simp add: example_state_def example_get_kv)
  from versioned_fetch_records_fetched_version [OF h1 h2 h3 h4 h5 h6 [of 3] h7 h8 [of 3], of 1000]
    versioned_fetch_records_fetched_version [OF h1 h2 h3 h4 h5 h6 [of 7] h7 h8 [of 7], of 1000]
  show ?thesis by simp
qed




text \<open>
  Claim C5. A pass of the watch loop that services a leased (\<^verbatim>\<open>database\<close>) path and whose
  fetch succeeds makes exactly one cache write and emits exactly one event, whatever the
  fetched value and whatever was stored before.
\<close>

theorem leased_fetch_always_writes:
  assumes "status st = Running"
    and "heap_Pop (queue st) = Inr (event, h')"
    and "watchConfig (client st) = Some cfg"
    and "isLeasable (eventVaultType (client st) (path event))"
    and "get e (client st) (path event) = Inr (data, leaseTime, c')"
  shows "fst (iteration e now st) =
           [SleepUntil (nextGet event), Fetch (path event),
            CacheWrite (path event) data, Emit \<lparr>Key = path event, Value = data\<rparr>] \<and>
         secretstore (snd (iteration e now st)) = (secretstore st)(path event \<mapsto> data)"
  using assms heap_Pop_Len [OF assms(2)]
  by (simp add: iteration_def Let_def isLeasable_def isVersionable_def)

theorem leased_fetch_always_writes_witness:
  "fst (iteration (example_env 6 60) 1000 (example_state [\<lparr>path = ''db/role'', nextGet = 100\<rparr>]))
     = [SleepUntil 100, Fetch ''db/role'', CacheWrite ''db/role'' ''u:p'',
        Emit \<lparr>Key = ''db/role'', Value = ''u:p''\<rparr>] \<and>
   secretstore (snd (iteration (example_env 6 60) 1000 (example_state [\<lparr>path = ''db/role'', nextGet = 100\<rparr>])))
     ''db/role'' = Some ''u:p''"
proof -
  let ?w = "\<lparr>path = ''db/role'', nextGet = 100\<rparr>"
  let ?st = "example_state [?w]"
  have h1: "status ?st = Running" by (simp add: example_state_def)
  have h2: "heap_Pop (queue ?st) = Inr (?w, [])" by (simp add: example_state_def heap_Pop_single)
  have h3: "watchConfig (client ?st) = Some \<lparr>VersionPeriod = 10 * Second\<rparr>"
    by (simp add: example_state_def example_config)
  have h4: "isLeasable (eventVaultType (client ?st) (path ?w))"
    by (simp add: example_state_def example_types isLeasable_def)
  have h5: "get (example_env 6 60) (client ?st) (path ?w)
      = Inr (''u:p'', 60, example_client\<lparr>leases := Some [''db/role'' \<mapsto> 60]\<rparr>)"
    by (simp add: example_state_def example_get_db)
  from leased_fetch_always_writes [OF h1 h2 h3 h4 h5, of 1000] show ?thesis by simp
qed

text \<open>
  Claim C6, as stated, fails in two ways. A lease so long that its count of nanoseconds does
  not fit \<^verbatim>\<open>time.Duration\<close> wraps in \<^verbatim>\<open>time.Duration(leaseTime) * time.Second\<close>: after a
  fetch that returns a lease of 9223372037 seconds the path is pushed back with a due time
  before the fetch-completion time. And \<^verbatim>\<open>time.Now()\<close> is read after the send on the
  \<^verbatim>\<open>AlertChannel\<close> has returned: with a lease of 2 seconds and a subscriber that takes the
  event after 151 ms, the due time is 2.151 s after the fetch-completion time, not 2 s.
\<close>

theorem leased_requeue_counterexample:
  "get (example_env 6 9223372037) (client (example_state [\<lparr>path = ''db/role'', nextGet = 100\<rparr>]))
      ''db/role''
     = Inr (''u:p'', 9223372037, example_client\<lparr>leases := Some [''db/role'' \<mapsto> 9223372037]\<rparr>) \<and>
   subscriberDelay (example_env 6 9223372037) = 0 \<and>
   queue (snd (iteration (example_env 6 9223372037) 1000
      (example_state [\<lparr>path = ''db/role'', nextGet = 100\<rparr>])))
     = [\<lparr>path = ''db/role'', nextGet = 1000 - 9223372036709551616\<rparr>] \<and>
   (1000 - 9223372036709551616 :: int) \<noteq> 1000 + 9223372037 * 1000000000 \<and>
   get ((example_env 6 2)\<lparr>subscriberDelay := 151000000\<rparr>)
      (client (example_state [\<lparr>path = ''db/role'', nextGet = 100\<rparr>])) ''db/role''
     = Inr (''u:p'', 2, example_client\<lparr>leases := Some [''db/role'' \<mapsto> 2]\<rparr>) \<and>
   queue (snd (iteration ((example_env 6 2)\<lparr>subscriberDelay := 151000000\<rparr>) 1000
      (example_state [\<lparr>path = ''db/role'', nextGet = 100\<rparr>])))
     = [\<lparr>path = ''db/role'', nextGet = 2151001000\<rparr>] \<and>
   (2151001000 :: int) \<noteq> 1000 + 2 * 1000000000"
  by (simp add: iteration_def example_state_def heap_Pop_single heap_Push_empty example_config
        example_types isVersionable_def isLeasable_def example_get_db example_get_db_delayed
        example_delay Len_def Let_def Add_def Second_def)

text \<open>
  Claim C6, amended. After a successful fetch of a leased path whose returned lease duration
  is at most 9223372036 seconds in absolute value (so that its nanoseconds fit
  \<^verbatim>\<open>time.Duration\<close>), the path is pushed back with due time equal to the time at which the
  subscriber has taken the event of that fetch, which is the fetch-completion time plus the
  time the send blocked, plus the lease duration returned by that fetch.
\<close>

theorem leased_requeue_after_lease:
  assumes "status st = Running"
    and "heap_Pop (queue st) = Inr (event, h')"
    and "watchConfig (client st) = Some cfg"
    and "isLeasable (eventVaultType (client st) (path event))"
    and "get e (client st) (path event) = Inr (data, leaseTime, c')"
    and "- 9223372036 \<le> sint leaseTime" and "sint leaseTime \<le> 9223372036"
  shows "queue (snd (iteration e fetched st)) =
           heap_Push h'
             \<lparr>path = path event,
              nextGet = fetched + int (subscriberDelay e) + sint leaseTime * 1000000000\<rparr>"
  using assms(1-5) heap_Pop_Len [OF assms(2)] sint_mul_Second [OF assms(6,7)]
  by (simp add: iteration_def Let_def Add_def isLeasable_def isVersionable_def)

theorem leased_requeue_after_lease_witness:
  "queue (snd (iteration ((example_env 6 300)\<lparr>subscriberDelay := 151000000\<rparr>) 1000
      (example_state [\<lparr>path = ''db/role'', nextGet = 100\<rparr>])))
     = [\<lparr>path = ''db/role'', nextGet = 300151001000\<rparr>] \<and>
   queue (snd (iteration (example_env 6 60) 1000 (example_state [\<lparr>path = ''db/role'', nextGet = 100\<rparr>])))
     = [\<lparr>path = ''db/role'', nextGet = 60000001000\<rparr>]"
proof -
  let ?w = "\<lparr>path = ''db/role'', nextGet = 100\<rparr>"
  let ?st = "example_state [?w]"
  let ?slow = "(example_env 6 300)\<lparr>subscriberDelay := 151000000\<rparr>"
  have h1: "status ?st = Running" by (simp add: example_state_def)
  have h2: "heap_Pop (queue ?st) = Inr (?w, [])" by (simp add: example_state_def heap_Pop_single)
  have h3: "watchConfig (client ?st) = Some \<lparr>VersionPeriod = 10 * Second\<rparr>"
    by (simp add: example_state_def example_config)
  have h4: "isLeasable (eventVaultType (client ?st) (path ?w))"
    by (simp add: example_state_def example_types isLeasable_def)
  have h5: "get ?slow (client ?st) (path ?w)
      = Inr (''u:p'', 300, example_client\<lparr>leases := Some [''db/role'' \<mapsto> 300]\<rparr>)"
    by (simp add: example_state_def example_get_db_delayed)
  have h5': "get (example_env 6 60) (client ?st) (path ?w)
      = Inr (''u:p'', 60, example_client\<lparr>leases := Some [''db/role'' \<mapsto> 60]\<rparr>)"
    by (simp add: example_state_def example_get_db)
  have r: "- 9223372036 \<le> sint (300 :: go_int)" "sint (300 :: go_int) \<le> 9223372036"
    "- 9223372036 \<le> sint (60 :: go_int)" "sint (60 :: go_int) \<le> 9223372036" by simp_all
  from leased_requeue_after_lease [OF h1 h2 h3 h4 h5 r(1,2), of 1000]
    leased_requeue_after_lease [OF h1 h2 h3 h4 h5' r(3,4), of 1000]
  show ?thesis by (simp add: heap_Push_empty example_delay)
qed

text \<open>
  Claim C7, as stated, fails when the fetch brings a newer version: \<^verbatim>\<open>time.Now()\<close> is read
  after the send on the \<^verbatim>\<open>AlertChannel\<close> has returned. With a version period of 10
  seconds, version 5 recorded, a fetch that returns version 6 and a subscriber that takes the
  event after 152 ms, the path is pushed back with a due time 10.152 s after the
  fetch-completion time, not 10 s.
\<close>

theorem versioned_requeue_counterexample:
  "oldVersion (client (example_state [\<lparr>path = ''kv/app:password'', nextGet = 100\<rparr>]))
      ''kv/app:password'' = 5 \<and>
   get ((example_env 6 60)\<lparr>subscriberDelay := 152000000\<rparr>)
      (client (example_state [\<lparr>path = ''kv/app:password'', nextGet = 100\<rparr>])) ''kv/app:password''
     = Inr (''s3cr3t'', 6, example_client\<lparr>versions := Some [''kv/app:password'' \<mapsto> 6]\<rparr>) \<and>
   VersionPeriod \<lparr>VersionPeriod = 10 * Second\<rparr> = 10000000000 \<and>
   queue (snd (iteration ((example_env 6 60)\<lparr>subscriberDelay := 152000000\<rparr>) 1000
      (example_state [\<lparr>path = ''kv/app:password'', nextGet = 100\<rparr>])))
     = [\<lparr>path = ''kv/app:password'', nextGet = 10152001000\<rparr>] \<and>
   (10152001000 :: int) \<noteq> 1000 + 10000000000"
  by (simp add: iteration_def example_state_def heap_Pop_single heap_Push_empty example_config
        example_types isVersionable_def example_get_kv_delayed Len_def Let_def Add_def Second_def)

text \<open>
  Claim C7, amended. After a successful fetch of a versioned path, the path is pushed back
  with due time equal to the configured version period added to the fetch-completion time
  when the fetched version is not newer than the recorded one, and added to the time at which
  the subscriber has taken the event (the fetch-completion time plus the time the send
  blocked) when it is newer. The period is that of the watch configuration, which the fetch
  leaves unchanged, so it is the same for every fetch and every versioned path.
\<close>

theorem versioned_requeue_after_version_period:
  assumes "status st = Running"
    and "heap_Pop (queue st) = Inr (event, h')"
    and "watchConfig (client st) = Some cfg"
    and "VersionPeriod cfg \<noteq> 0"
    and "isVersionable (eventVaultType (client st) (path event))"
    and "get e (client st) (path event) = Inr (data, version, c')"
  shows "queue (snd (iteration e fetched st)) =
           heap_Push h'
             \<lparr>path = path event,
              nextGet = (if oldVersion (client st) (path event) <s version
                         then fetched + int (subscriberDelay e) else fetched)
                        + sint (VersionPeriod cfg)\<rparr> \<and>
         watchConfig (client (snd (iteration e fetched st))) = Some cfg"
  using assms heap_Pop_Len [OF assms(2)] get_watchConfig [OF assms(6)]
  by (simp add: iteration_def Let_def Add_def)

theorem versioned_requeue_after_version_period_witness:
  "queue (snd (iteration ((example_env 6 60)\<lparr>subscriberDelay := 152000000\<rparr>) 1000
      (example_state [\<lparr>path = ''kv/app:password'', nextGet = 100\<rparr>])))
     = [\<lparr>path = ''kv/app:password'', nextGet = 10152001000\<rparr>] \<and>
   queue (snd (iteration ((example_env 5 60)\<lparr>subscriberDelay := 152000000\<rparr>) 1000
      (example_state [\<lparr>path = ''kv/app:password'', nextGet = 100\<rparr>])))
     = [\<lparr>path = ''kv/app:password'', nextGet = 10000001000\<rparr>]"
proof -
  let ?w = "\<lparr>path = ''kv/app:password'', nextGet = 100\<rparr>"
  let ?st = "example_state [?w]"
  have h1: "status ?st = Running" by (simp add: example_state_def)
  have h2: "heap_Pop (queue ?st) = Inr (?w, [])" by (simp add: example_state_def heap_Pop_single)
  have h3: "watchConfig (client ?st) = Some \<lparr>VersionPeriod = 10 * Second\<rparr>"
    by (simp add: example_state_def example_config)
  have h4: "VersionPeriod \<lparr>VersionPeriod = 10 * Second\<rparr> \<noteq> 0" by (rule example_config)
  have h5: "isVersionable (eventVaultType (client ?st) (path ?w))"
    by (simp add: example_state_def example_types isVersionable_def)
  have h6: "get ((example_env v 60)\<lparr>subscriberDelay := 152000000\<rparr>) (client ?st) (path ?w)
      = Inr (''s3cr3t'', v, example_client\<lparr>versions := Some [''kv/app:password'' \<mapsto> v]\<rparr>)" for v
    by (simp add: example_state_def example_get_kv_delayed)
  have old: "oldVersion (client ?st) (path ?w) = 5"
    by (simp add: example_state_def example_config)
  have "(5::go_int) <s 6" "\<not> (5::go_int) <s 5" by simp_all
  with versioned_requeue_after_version_period [OF h1 h2 h3 h4 h5 h6 [of 6], of 1000]
    versioned_requeue_after_version_period [OF h1 h2 h3 h4 h5 h6 [of 5], of 1000] old
  show ?thesis by (simp add: heap_Push_empty Second_def)
qed

text \<open>
  Claim C8. If the client has no leased path and either the version period is zero or it has
  no versioned path, \<^verbatim>\<open>watchVault\<close> logs the error, closes the event channel and returns:
  whatever the outside world offers afterwards, these are its only effects, so it performs no
  fetch, and the loop is terminated with an empty queue.
\<close>

theorem empty_watch_set_closes_channel:
  assumes "watchConfig c = Some cfg"
    and "mapOrNil (leases c) = Map.empty"
    and "VersionPeriod cfg = 0 \<or> mapOrNil (versions c) = Map.empty"
  shows "watchVault su sched c store =
           ([LogError [''No watchable paths found for vault watching.''], CloseChannel],
            \<lparr>client = c, queue = [], secretstore = store, status = Terminated\<rparr>)"
proof -
  have "watchVault_start su c store =
           ([LogError [''No watchable paths found for vault watching.''], CloseChannel],
            \<lparr>client = c, queue = [], secretstore = store, status = Terminated\<rparr>)"
    using assms
    by (auto simp: watchVault_start_def Let_def pushLeases_empty pushVersions_empty Len_def)
  then show ?thesis by (simp add: watchVault_def run_stopped)
qed

theorem empty_watch_set_closes_channel_witness:
  "fst (watchVault \<lparr>leaseVisits = [], versionVisits = [(''kv/app:password'', 500)]\<rparr>
          [(example_env 6 60, 1000), (example_env 7 60, 2000)]
          (example_client\<lparr>watchConfig := Some \<lparr>VersionPeriod = 0\<rparr>\<rparr>) Map.empty)
     = [LogError [''No watchable paths found for vault watching.''], CloseChannel] \<and>
   status (snd (watchVault \<lparr>leaseVisits = [], versionVisits = [(''kv/app:password'', 500)]\<rparr>
          [(example_env 6 60, 1000), (example_env 7 60, 2000)]
          (example_client\<lparr>watchConfig := Some \<lparr>VersionPeriod = 0\<rparr>\<rparr>) Map.empty))
     = Terminated"
proof -
  let ?c = "example_client\<lparr>watchConfig := Some \<lparr>VersionPeriod = 0\<rparr>\<rparr>"
  have h1: "watchConfig ?c = Some \<lparr>VersionPeriod = 0\<rparr>" by simp
  have h2: "mapOrNil (leases ?c) = Map.empty" by (simp add: example_client_def mapOrNil_def)
  have h3: "VersionPeriod \<lparr>VersionPeriod = 0\<rparr> = 0 \<or> mapOrNil (versions ?c) = Map.empty" by simp
  from empty_watch_set_closes_channel [OF h1 h2 h3] show ?thesis by simp
qed

text \<open>
  Claim C9. A key that resolves to a \<^verbatim>\<open>kv\<close> mount and whose remaining path has no
  \<^verbatim>\<open>":"\<close> makes \<^verbatim>\<open>get\<close> panic with an index out of range (\<^verbatim>\<open>keyWithName[1]\<close> on a slice
  of length 1) instead of returning an error, and so do \<^verbatim>\<open>Get\<close> and the registration
  loop of \<^verbatim>\<open>AddVault\<close> when they reach that key.
\<close>

theorem get_kv_without_colon_panics:
  assumes "getVaultTypePath e c key = Inr (''kv'', mountPath)"
    and "CHR '':'' \<notin> set (TrimPrefix key (mountPath @ ''/''))"
  shows "get e c key = Inl (Panic ''index out of range [1] with length 1'') \<and>
         Get e c key = Inl (Panic ''index out of range [1] with length 1'') \<and>
         (\<forall>envs i store ps. envs i = e \<longrightarrow>
            AddVault_loop envs i c store (key # ps)
              = (store, Inl (Panic ''index out of range [1] with length 1'')))"
proof -
  have g: "get e c key = Inl (Panic ''index out of range [1] with length 1'')"
    using assms by (simp add: get_def Let_def Split_no_sep)
  then have "Get e c key = Inl (Panic ''index out of range [1] with length 1'')"
    by (simp add: Get_def)
  then show ?thesis using g by simp
qed

theorem get_kv_without_colon_panics_witness:
  "getVaultTypePath (example_env 1 60) example_client ''kv/app'' = Inr (''kv'', ''kv'') \<and>
   CHR '':'' \<notin> set (TrimPrefix ''kv/app'' (''kv'' @ ''/'')) \<and>
   get (example_env 1 60) example_client ''kv/app''
     = Inl (Panic ''index out of range [1] with length 1'') \<and>
   AddVault_loop (\<lambda>i. example_env 1 60) 0 example_client Map.empty [''kv/app'', ''db/role'']
     = (Map.empty, Inl (Panic ''index out of range [1] with length 1''))"
proof -
  have h1: "getVaultTypePath (example_env 1 60) example_client ''kv/app'' = Inr (''kv'', ''kv'')"
    by (simp add: getVaultTypePath_def example_env_def example_client_def HasPrefix_def)
  have h2: "CHR '':'' \<notin> set (TrimPrefix ''kv/app'' (''kv'' @ ''/''))"
    by (simp add: TrimPrefix_def HasPrefix_def)
  from get_kv_without_colon_panics [OF h1 h2] h1 h2 show ?thesis by simp
qed

text \<open>
  Claim C10. If the fetches of the paths before some path of the list succeed and the fetch of
  that path returns an error, \<^verbatim>\<open>AddVault\<close> returns an error naming that path and does not
  start the watch loop, and the secret store is left as the successful fetches made it: it
  holds an entry for each of the earlier paths, with no rollback.
\<close>

theorem AddVault_keeps_earlier_writes:
  assumes "ConfigureVault e0 newVaultClient = Inr c"
    and "AddVault_loop envs 0 (AddVault_setup wc c) store pre = (store1, Inr c1)"
    and "Get (envs (length pre)) c1 p = Inl (Error err)"
  shows "AddVault e0 envs store wc (pre @ p # post) =
           \<lparr>returned = Some (Error (''Error while adding vault: '' @ err @ '', path: '' @ p)),
            stored = store1, watched = None\<rparr> \<and>
         dom store1 = dom store \<union> set pre"
  using assms AddVault_loop_append [OF assms(2), of "p # post"] AddVault_loop_dom [OF assms(2)]
  by (simp add: AddVault_def)

theorem AddVault_keeps_earlier_writes_witness:
  "returned (AddVault (example_env 6 60) (\<lambda>i. if i = 0 then example_env 6 60 else unreachable_env)
       Map.empty (Some \<lparr>VersionPeriod = 10 * Second\<rparr>) ([''kv/app:password''] @ ''db/role'' # [''kv/app:user'']))
     = Some (Error ''Error while adding vault: connection refused, path: db/role'') \<and>
   stored (AddVault (example_env 6 60) (\<lambda>i. if i = 0 then example_env 6 60 else unreachable_env)
       Map.empty (Some \<lparr>VersionPeriod = 10 * Second\<rparr>) ([''kv/app:password''] @ ''db/role'' # [''kv/app:user'']))
     ''kv/app:password'' = Some ''s3cr3t'' \<and>
   watched (AddVault (example_env 6 60) (\<lambda>i. if i = 0 then example_env 6 60 else unreachable_env)
       Map.empty (Some \<lparr>VersionPeriod = 10 * Second\<rparr>) ([''kv/app:password''] @ ''db/role'' # [''kv/app:user'']))
     = None"
proof -
  let ?envs = "\<lambda>i::nat. if i = 0 then example_env 6 60 else unreachable_env"
  let ?c = "newVaultClient\<lparr>vaults := [''kv/'' \<mapsto> ''kv'', ''db/'' \<mapsto> ''database'']\<rparr>"
  let ?wc = "Some \<lparr>VersionPeriod = 10 * Second\<rparr>"
  let ?c1 = "(AddVault_setup ?wc ?c)\<lparr>versions := Some [''kv/app:password'' \<mapsto> 6]\<rparr>"
  have h1: "ConfigureVault (example_env 6 60) newVaultClient = Inr ?c"
    by (rule example_ConfigureVault)
  have h2: "AddVault_loop ?envs 0 (AddVault_setup ?wc ?c) Map.empty [''kv/app:password'']
      = ([''kv/app:password'' \<mapsto> ''s3cr3t''], Inr ?c1)"
    by (simp add: Get_def get_def getVaultTypePath_def getKV2_def example_env_def
          newVaultClient_def AddVault_setup_def HasPrefix_def TrimPrefix_def Second_def Let_def)
  have h3: "Get (?envs (length [''kv/app:password''])) ?c1 ''db/role''
      = Inl (Error ''connection refused'')"
    by (simp add: Get_def get_def getVaultTypePath_def getDBCreds_def unreachable_env_def
          newVaultClient_def AddVault_setup_def HasPrefix_def TrimPrefix_def Let_def)
  from AddVault_keeps_earlier_writes [OF h1 h2 h3, of "[''kv/app:user'']"]
  show ?thesis by simp
qed

end
